theory Spec2Isabelle
  imports
    Complex_Main
    "HOL-Library.Multiset"
    "HOL-Library.Sublist"
    "HOL-Library.Char_ord"
    "HOL-Library.List_Lexorder"
    "HOL-Library.Log_Nat"
begin

section \<open>Text: characters, lowercasing and the keyword pattern\<close>

text \<open>
  A Python \<open>str\<close> is a sequence of code points. The model covers the code points
  0..255 (Latin-1), one \<^typ>\<open>char\<close> each; \<open>code\<close> reads the code point.
\<close>

definition code :: "char \<Rightarrow> nat" where
  "code c = of_char c"

text \<open>The character class \<open>[a-z]\<close> of the pattern.\<close>

definition is_az :: "char \<Rightarrow> bool" where
  "is_az c = (97 \<le> code c \<and> code c \<le> 122)"

text \<open>
  The class \<open>\w\<close> of a \<open>str\<close> pattern: alphanumeric code points and the underscore.
  Below 128 these are the digits, the letters and \<open>_\<close>; from 128 to 255 they are the
  letters, superscript digits and fractions of Latin-1 (all but the multiplication and
  division signs from 192 on).
\<close>

definition is_word_char :: "char \<Rightarrow> bool" where
  "is_word_char c =
     (let n = code c
      in (48 \<le> n \<and> n \<le> 57) \<or> (65 \<le> n \<and> n \<le> 90) \<or> n = 95 \<or> (97 \<le> n \<and> n \<le> 122)
         \<or> n = 170 \<or> n = 178 \<or> n = 179 \<or> n = 181 \<or> n = 185 \<or> n = 186
         \<or> n = 188 \<or> n = 189 \<or> n = 190
         \<or> (192 \<le> n \<and> n \<le> 214) \<or> (216 \<le> n \<and> n \<le> 246) \<or> 248 \<le> n)"

text \<open>\<open>str.lower()\<close>: the capital letters of ASCII and of Latin-1 move up by 32.\<close>

definition lower_char :: "char \<Rightarrow> char" where
  "lower_char c =
     (let n = code c
      in if (65 \<le> n \<and> n \<le> 90) \<or> (192 \<le> n \<and> n \<le> 214) \<or> (216 \<le> n \<and> n \<le> 222)
         then char_of (n + 32) else c)"

definition lower :: "string \<Rightarrow> string" where
  "lower s = map lower_char s"

text \<open>
  The anchor \<open>\b\<close> holds at a position when exactly one of the characters before and
  after it is a word character; outside the text there is no character.
\<close>

definition is_word_opt :: "char option \<Rightarrow> bool" where
  "is_word_opt x = (case x of None \<Rightarrow> False | Some c \<Rightarrow> is_word_char c)"

definition word_boundary :: "char option \<Rightarrow> char option \<Rightarrow> bool" where
  "word_boundary left right = (is_word_opt left \<noteq> is_word_opt right)"

definition char_at :: "string \<Rightarrow> nat \<Rightarrow> char option" where
  "char_at s i = (if i < length s then Some (s ! i) else None)"

text \<open>
  One attempt to match \<open>\b[a-z]{3,}\b\<close> at the head of \<open>s\<close>, the character before
  \<open>s\<close> being \<open>left\<close>: the first anchor, then the greedy repetition, which takes
  every letter it can and gives letters back one at a time, down to three, until the
  second anchor holds. The result is the length of the match.
\<close>

definition match_at :: "char option \<Rightarrow> string \<Rightarrow> nat option" where
  "match_at left s =
     (if word_boundary left (char_at s 0)
      then find (\<lambda>n. word_boundary (char_at s (n - 1)) (char_at s n))
             (rev [3 ..< Suc (length (takeWhile is_az s))])
      else None)"

text \<open>
  \<open>re.findall\<close>: scan from the left; after a match go on behind it, after a failed
  attempt go on one character further.
\<close>

function findall :: "char option \<Rightarrow> string \<Rightarrow> string list" where
  "findall left [] = []"
| "findall left (c # cs) =
     (case match_at left (c # cs) of
        None \<Rightarrow> findall (Some c) cs
      | Some n \<Rightarrow> take n (c # cs) # findall (char_at (c # cs) (n - 1)) (drop n (c # cs)))"
  by pat_completeness auto
termination
proof (relation "measure (\<lambda>(b, s). length s)")
  fix left :: "char option" and c :: char and cs :: string and n :: nat
  assume "match_at left (c # cs) = Some n"
  then obtain xs where "find (\<lambda>n. word_boundary (char_at (c # cs) (n - 1)) (char_at (c # cs) n)) xs = Some n"
    and xs: "xs = rev [3 ..< Suc (length (takeWhile is_az (c # cs)))]"
    by (auto simp: match_at_def split: if_splits)
  then obtain i where "i < length xs" "n = xs ! i"
    unfolding find_Some_iff by blast
  then have "n \<in> set xs"
    by simp
  then have "3 \<le> n"
    by (auto simp: xs simp del: takeWhile.simps)
  then show "((char_at (c # cs) (n - 1), drop n (c # cs)), (left, c # cs)) \<in> measure (\<lambda>(b, s). length s)"
    by simp
qed simp_all

definition stop_words :: "string set" where
  "stop_words = set
     [''the'', ''a'', ''an'', ''and'', ''or'', ''but'', ''in'', ''on'', ''at'', ''to'', ''for'',
      ''of'', ''with'', ''by'', ''from'', ''as'', ''is'', ''was'', ''are'', ''were'', ''been'',
      ''be'', ''have'', ''has'', ''had'', ''do'', ''does'', ''did'', ''will'', ''would'', ''should'',
      ''could'', ''may'', ''might'', ''can'', ''this'', ''that'', ''these'', ''those'', ''i'', ''you'',
      ''he'', ''she'', ''it'', ''we'', ''they'', ''what'', ''which'', ''who'', ''when'', ''where'',
      ''why'', ''how'', ''all'', ''each'', ''every'', ''both'', ''few'', ''more'', ''most'', ''other'',
      ''some'', ''such'', ''no'', ''nor'', ''not'', ''only'', ''own'', ''same'', ''so'', ''than'', ''too'',
      ''very'', ''just'', ''now'', ''new'']"

definition extract_keywords :: "string \<Rightarrow> string list" where
  "extract_keywords text =
     (let words = findall None (lower text)
      in filter (\<lambda>w. w \<notin> stop_words) words)"

text \<open>
  For comparison with the pattern: the maximal runs of characters of a class, left to
  right.
\<close>

function runs :: "(char \<Rightarrow> bool) \<Rightarrow> string \<Rightarrow> string list" where
  "runs P [] = []"
| "runs P (c # cs) =
     (if P c then (c # takeWhile P cs) # runs P (dropWhile P cs) else runs P cs)"
  by pat_completeness auto
termination
  by (relation "measure (\<lambda>(P, s). length s)") (auto simp: length_dropWhile_le less_Suc_eq_le)

text \<open>
  The extraction as the specification words it: every maximal run of ASCII letters of
  length at least 3 in the lowercased text, stop words removed.
\<close>

definition letter_run_keywords :: "string \<Rightarrow> string list" where
  "letter_run_keywords text =
     filter (\<lambda>w. w \<notin> stop_words) (filter (\<lambda>w. 3 \<le> length w) (runs is_az (lower text)))"

text \<open>
  The extraction as the pattern performs it: a token is a maximal run of word characters
  that has at least 3 characters, all of them letters \<open>a\<close> to \<open>z\<close>.
\<close>

definition is_token :: "string \<Rightarrow> bool" where
  "is_token w = (3 \<le> length w \<and> list_all is_az w)"

definition whole_word_keywords :: "string \<Rightarrow> string list" where
  "whole_word_keywords text =
     filter (\<lambda>w. w \<notin> stop_words) (filter is_token (runs is_word_char (lower text)))"

section \<open>Similarity of two keyword lists\<close>

text \<open>
  The similarity is the quotient of two counts. The model keeps the exact quotient; the
  program holds the float nearest to it.
\<close>

definition calculate_similarity :: "string list \<Rightarrow> string list \<Rightarrow> rat" where
  "calculate_similarity keywords1 keywords2 =
     (if keywords1 = [] \<or> keywords2 = [] then 0
      else let set1 = set keywords1; set2 = set keywords2;
               intersection = card (set1 \<inter> set2);
               union = card (set1 \<union> set2)
           in if 0 < union then of_nat intersection / of_nat union else 0)"

section \<open>Data model\<close>

text \<open>
  The dictionaries of the program have fixed keys and become records. \<open>feeds_data\<close> is
  a dictionary from feed name to feed, read in insertion order: an association list.
\<close>

record raw_entry =
  r_title :: string
  r_link :: string
  r_summary :: string
  r_published :: string

record feed =
  f_entries :: "raw_entry list"
  f_topics :: "string list"
  f_category :: string

type_synonym feeds = "(string \<times> feed) list"

record entry =
  e_title :: string
  e_link :: string
  e_summary :: string
  e_published :: string
  e_source :: string
  e_source_topics :: "string list"
  e_keywords :: "string list"

text \<open>
  A \<open>Counter\<close> is a dictionary from token to count that keeps the order in which the
  tokens were first seen.
\<close>

type_synonym counter = "(string \<times> nat) list"

record cluster =
  c_entries :: "entry list"
  c_keywords :: counter
  c_sources :: "string set"
  c_topics :: "string set"

record suggestion =
  s_score :: rat
  s_headline :: string
  s_sources :: "string list"
  s_topics :: "string list"
  s_angle :: string
  s_entries :: "entry list"

type_synonym topic_weights = "string \<rightharpoonup> rat"

section \<open>Counters\<close>

fun counter_add :: "string \<Rightarrow> counter \<Rightarrow> counter" where
  "counter_add w [] = [(w, 1)]"
| "counter_add w ((k, n) # kvs) =
     (if k = w then (k, Suc n) # kvs else (k, n) # counter_add w kvs)"

definition counter_update :: "counter \<Rightarrow> string list \<Rightarrow> counter" where
  "counter_update cnt ws = fold counter_add ws cnt"

text \<open>
  \<open>most_common(n)\<close>: the \<open>n\<close> largest counts, equal counts in the order first seen
  (a stable sort by descending count).
\<close>

definition most_common :: "nat \<Rightarrow> counter \<Rightarrow> (string \<times> nat) list" where
  "most_common n cnt = take n (sort_key (\<lambda>(k, c). - int c) cnt)"

section \<open>Clustering\<close>

definition make_entry :: "string \<Rightarrow> feed \<Rightarrow> raw_entry \<Rightarrow> entry" where
  "make_entry feed_name feed_data r =
     \<lparr>e_title = r_title r, e_link = r_link r, e_summary = r_summary r,
      e_published = r_published r, e_source = feed_name,
      e_source_topics = f_topics feed_data,
      e_keywords = extract_keywords (r_title r @ '' '' @ r_summary r)\<rparr>"

definition collect_entries :: "feeds \<Rightarrow> entry list" where
  "collect_entries feeds_data =
     concat (map (\<lambda>(feed_name, feed_data). map (make_entry feed_name feed_data) (f_entries feed_data))
       feeds_data)"

text \<open>
  The inner loop, over the entries behind the seed \<open>entry\<close> with their positions: the
  state is the cluster under construction and the set \<open>used\<close> of positions.
  The threshold \<open>0.15\<close> is the rational 15/100. Float division is monotone and the
  float of 3/20 is the float \<open>0.15\<close>, so a quotient of two counts at most 3/20 never
  exceeds the threshold as a float; a quotient above 3/20 is above it by at least
  1/(20 u) for a union of \<open>u\<close> tokens, which floats near 0.15 (spaced 2 to the
  power -55 apart) resolve for every \<open>u\<close> below ten to the power 15.
\<close>

fun find_similar :: "entry \<Rightarrow> (nat \<times> entry) list \<Rightarrow> cluster \<times> nat set \<Rightarrow> cluster \<times> nat set" where
  "find_similar entry [] (cl, used) = (cl, used)"
| "find_similar entry ((j, other) # rest) (cl, used) =
     (if j \<in> used then find_similar entry rest (cl, used)
      else if 15 / 100 < calculate_similarity (e_keywords entry) (e_keywords other)
      then find_similar entry rest
             (cl\<lparr>c_entries := c_entries cl @ [other],
                 c_keywords := counter_update (c_keywords cl) (e_keywords other),
                 c_sources := insert (e_source other) (c_sources cl),
                 c_topics := c_topics cl \<union> set (e_source_topics other)\<rparr>,
              insert j used)
      else find_similar entry rest (cl, used))"

text \<open>The outer loop, over all entries with their positions.\<close>

fun cluster_loop :: "entry list \<Rightarrow> (nat \<times> entry) list \<Rightarrow> cluster list \<times> nat set \<Rightarrow> cluster list \<times> nat set" where
  "cluster_loop all_entries [] (clusters, used) = (clusters, used)"
| "cluster_loop all_entries ((i, entry) # rest) (clusters, used) =
     (if i \<in> used then cluster_loop all_entries rest (clusters, used)
      else
        let cl = \<lparr>c_entries = [entry],
                  c_keywords = counter_update [] (e_keywords entry),
                  c_sources = {e_source entry},
                  c_topics = set (e_source_topics entry)\<rparr>;
            (cl', used') = find_similar entry (enumerate (i + 1) (drop (i + 1) all_entries))
                             (cl, insert i used)
        in cluster_loop all_entries rest (clusters @ [cl'], used'))"

definition cluster_topics :: "feeds \<Rightarrow> cluster list" where
  "cluster_topics feeds_data =
     (let all_entries = collect_entries feeds_data
      in fst (cluster_loop all_entries (enumerate 0 all_entries) ([], {})))"

section \<open>Floats\<close>

text \<open>
  A Python float is an IEEE 754 double, and every operation on floats returns the double
  nearest to the exact result, a tie going to the double with the even significand. The
  model takes a finite float for the rational number it equals, so the two zeros are one
  number, as they are for \<open>==\<close>. The infinities are the numbers \<open>huge\<close> and \<open>- huge\<close>:
  2 to the power 1024 lies beyond every finite double.
\<close>

definition round_half_even :: "rat \<Rightarrow> int" where
  "round_half_even x =
     (let f = \<lfloor>x\<rfloor>; d = x - of_int f
      in if d < 1 / 2 then f else if 1 / 2 < d then f + 1 else if even f then f else f + 1)"

definition pow2 :: "int \<Rightarrow> rat" where
  "pow2 e = (if 0 \<le> e then 2 ^ nat e else 1 / 2 ^ nat (- e))"

text \<open>The binary exponent of a positive number: \<open>pow2 e \<le> x < pow2 (e + 1)\<close>.\<close>

definition ilog2 :: "rat \<Rightarrow> int" where
  "ilog2 x =
     (let (a, b) = quotient_of x; d = bitlen a - bitlen b
      in if pow2 d \<le> x then d else d - 1)"

definition huge :: rat where
  "huge = pow2 1024"

definition is_inf :: "rat \<Rightarrow> bool" where
  "is_inf x = (x \<noteq> 0 \<and> 1024 \<le> ilog2 \<bar>x\<bar>)"

text \<open>
  The double nearest to a number. Doubles with exponent \<open>e\<close> are the multiples of
  \<open>pow2 (e - 52)\<close>; below exponent -1022 the spacing stays that of the subnormal
  numbers; a result that reaches 2 to the power 1024 is an infinity. This is also how a
  decimal literal of the program (\<open>0.3\<close>, \<open>0.1\<close>, \<open>1.0\<close>) and an integer become floats.
\<close>

definition fl :: "rat \<Rightarrow> rat" where
  "fl x =
     (if x = 0 then 0
      else let e = max (ilog2 \<bar>x\<bar>) (- 1022);
               q = pow2 (e - 52);
               y = of_int (round_half_even (x / q)) * q
           in if is_inf y then sgn x * huge else y)"

text \<open>
  Addition, multiplication and division of floats. An infinity stays one. The
  operations that would give a NaN (the sum of opposite infinities, an infinity times
  zero, a quotient of infinities, a division by zero) do not occur in the scoring: the
  weights are finite, a sum that has overflowed keeps its sign, the multipliers are
  finite and at least 0.7, and the divisor is a positive count.
\<close>

definition fadd :: "rat \<Rightarrow> rat \<Rightarrow> rat" where
  "fadd x y = (if is_inf x then x else if is_inf y then y else fl (x + y))"

definition fmul :: "rat \<Rightarrow> rat \<Rightarrow> rat" where
  "fmul x y = (if is_inf x \<or> is_inf y then sgn x * sgn y * huge else fl (x * y))"

definition fdiv :: "rat \<Rightarrow> rat \<Rightarrow> rat" where
  "fdiv x y = (if is_inf x then sgn x * sgn y * huge else fl (x / y))"

text \<open>
  \<open>round(x, 2)\<close> on a float: the exact value of \<open>x\<close> is rounded to the nearest
  multiple of one hundredth, a tie to the even one, and the result is the double nearest
  to that decimal number. An infinity is returned as it is.
\<close>

definition round2 :: "rat \<Rightarrow> rat" where
  "round2 x = (if is_inf x then x else fl (of_int (round_half_even (x * 100)) / 100))"

section \<open>Scoring\<close>

text \<open>
  \<open>topic_weights.get(topic, 0.3)\<close>. A weight of the mapping is the number written in the
  configuration, of which the program holds the nearest float; for a number that is a
  float already this changes nothing.
\<close>

definition weight :: "topic_weights \<Rightarrow> string \<Rightarrow> rat" where
  "weight tw topic = (case tw topic of None \<Rightarrow> fl (3 / 10) | Some w \<Rightarrow> fl w)"

text \<open>
  The loop over \<open>cluster["topics"]\<close> adds the weights one by one, starting from
  \<open>0.0\<close>. Float addition is not associative, so the sum depends on the order in which
  the set is iterated. That order is fixed by the hashes of the strings, not by the
  program; it is the parameter \<open>order\<close>, a list of the topics of the cluster.
\<close>

definition topic_score :: "topic_weights \<Rightarrow> string list \<Rightarrow> cluster \<Rightarrow> rat" where
  "topic_score tw order cl =
     (let total = fold (\<lambda>topic acc. fadd acc (weight tw topic)) order 0
      in if c_topics cl \<noteq> {} then fdiv total (fl (of_nat (card (c_topics cl))))
         else fl (3 / 10))"

definition source_multiplier :: "cluster \<Rightarrow> rat" where
  "source_multiplier cl =
     fadd 1 (fmul (fl (of_int (int (card (c_sources cl)) - 1))) (fl (3 / 10)))"

definition entry_multiplier :: "cluster \<Rightarrow> rat" where
  "entry_multiplier cl =
     fadd 1 (fmul (fl (of_int (int (length (c_entries cl)) - 1))) (fl (1 / 10)))"

definition score_cluster :: "topic_weights \<Rightarrow> string list \<Rightarrow> cluster \<Rightarrow> rat" where
  "score_cluster tw order cl =
     round2 (fmul (fmul (topic_score tw order cl) (source_multiplier cl)) (entry_multiplier cl))"

section \<open>Suggestions\<close>

text \<open>
  \<open>str.title()\<close> on the letters of ASCII, the only cased characters a keyword holds: a
  letter after a letter is lowercased, any other letter is capitalised.
\<close>

definition is_ascii_letter :: "char \<Rightarrow> bool" where
  "is_ascii_letter c = ((65 \<le> code c \<and> code c \<le> 90) \<or> (97 \<le> code c \<and> code c \<le> 122))"

definition upper_ascii :: "char \<Rightarrow> char" where
  "upper_ascii c = (if 97 \<le> code c \<and> code c \<le> 122 then char_of (code c - 32) else c)"

definition lower_ascii :: "char \<Rightarrow> char" where
  "lower_ascii c = (if 65 \<le> code c \<and> code c \<le> 90 then char_of (code c + 32) else c)"

fun title_from :: "bool \<Rightarrow> string \<Rightarrow> string" where
  "title_from prev_cased [] = []"
| "title_from prev_cased (c # cs) =
     (if prev_cased then lower_ascii c else upper_ascii c) # title_from (is_ascii_letter c) cs"

definition title_case :: "string \<Rightarrow> string" where
  "title_case s = title_from False s"

fun join :: "string \<Rightarrow> string list \<Rightarrow> string" where
  "join sep [] = []"
| "join sep [w] = w"
| "join sep (w # ws) = w @ sep @ join sep ws"

definition generate_headline :: "cluster \<Rightarrow> string list \<Rightarrow> string" where
  "generate_headline cl kws =
     (case c_entries cl of
        e # _ \<Rightarrow> e_title e
      | [] \<Rightarrow> title_case (join '' '' (take 3 kws)))"

definition generate_angle :: "cluster \<Rightarrow> string" where
  "generate_angle cl =
     (let topics = c_topics cl
      in if list_ex (\<lambda>t. t \<in> topics) [''voip'', ''telecom'', ''vcon'', ''voice-intelligence'']
         then (if ''ai'' \<in> topics
               then ''Connect this to vCon and AI-powered voice intelligence in telecom''
               else ''How this impacts the VoIP/UCaaS industry and vCon adoption'')
         else if ''ai'' \<in> topics \<or> ''llm'' \<in> topics \<or> ''ai-agents'' \<in> topics
         then (if ''dev-tools'' \<in> topics
               then ''Developer perspective: practical applications and tooling''
               else ''Bridge this AI development with telecom/voice applications'')
         else ''Industry implications and practical takeaways for technical leaders'')"

text \<open>
  The suggestion of a cluster; \<open>topic_order\<close> gives, for a cluster, the order in which
  its set of topics is iterated.
\<close>

definition make_suggestion :: "topic_weights \<Rightarrow> (cluster \<Rightarrow> string list) \<Rightarrow> cluster \<Rightarrow> suggestion" where
  "make_suggestion tw topic_order cl =
     (let top_keywords = map fst (most_common 5 (c_keywords cl))
      in \<lparr>s_score = score_cluster tw (topic_order cl) cl,
          s_headline = generate_headline cl top_keywords,
          s_sources = sorted_list_of_set (c_sources cl),
          s_topics = sorted_list_of_set (c_topics cl),
          s_angle = generate_angle cl,
          s_entries = c_entries cl\<rparr>)"

text \<open>
  \<open>suggestions.sort(key=score, reverse=True)\<close> is stable: suggestions of equal score
  keep their order. That is a stable ascending sort by the negated score.
\<close>

definition generate_suggestions ::
  "topic_weights \<Rightarrow> (cluster \<Rightarrow> string list) \<Rightarrow> cluster list \<Rightarrow> suggestion list" where
  "generate_suggestions tw topic_order clusters =
     (let suggestions = map (make_suggestion tw topic_order) clusters
      in take 5 (sort_key (\<lambda>x. - s_score x) suggestions))"

section \<open>The scenario of two related articles\<close>

definition scenario :: feeds where
  "scenario =
     [(''A'', \<lparr>f_entries = [\<lparr>r_title = ''AI voice agents rise'', r_link = '''',
                              r_summary = ''AI agents transform telecom'', r_published = ''''\<rparr>],
              f_topics = [''ai'', ''telecom''], f_category = ''''\<rparr>),
      (''B'', \<lparr>f_entries = [\<lparr>r_title = ''New AI agent tools'', r_link = '''',
                              r_summary = ''AI agents transform telecom'', r_published = ''''\<rparr>],
              f_topics = [''ai'', ''dev-tools''], f_category = ''''\<rparr>)]"

section \<open>Clustering, specified\<close>

text \<open>The test of the inner loop: the similarity to the seed exceeds 0.15.\<close>

definition similar :: "entry \<Rightarrow> entry \<Rightarrow> bool" where
  "similar seed other = (15 / 100 < calculate_similarity (e_keywords seed) (e_keywords other))"

text \<open>
  The clustering as the specification words it: the first entry left over is a seed, the
  entries behind it that are similar to the seed join its group in their order, and the
  others are clustered in the same way. Nothing but the seed is compared with a candidate.
\<close>

fun seed_groups :: "('a \<Rightarrow> 'a \<Rightarrow> bool) \<Rightarrow> 'a list \<Rightarrow> 'a list list" where
  "seed_groups sim [] = []"
| "seed_groups sim (x # xs) =
     (x # filter (sim x) xs) # seed_groups sim (filter (\<lambda>y. \<not> sim x y) xs)"

text \<open>
  What adding entries to a cluster does: the entries are appended, their keywords are
  counted into the counter, their sources and topics are united with the cluster's.
\<close>

definition absorb :: "cluster \<Rightarrow> entry list \<Rightarrow> cluster" where
  "absorb cl es =
     \<lparr>c_entries = c_entries cl @ es,
      c_keywords = counter_update (c_keywords cl) (concat (map e_keywords es)),
      c_sources = c_sources cl \<union> set (map e_source es),
      c_topics = c_topics cl \<union> set (concat (map e_source_topics es))\<rparr>"

text \<open>The cluster that holds the entries of a group.\<close>

definition cluster_of :: "entry list \<Rightarrow> cluster" where
  "cluster_of es =
     \<lparr>c_entries = es,
      c_keywords = counter_update [] (concat (map e_keywords es)),
      c_sources = set (map e_source es),
      c_topics = set (concat (map e_source_topics es))\<rparr>"

text \<open>The same test on entries that carry their position in the input.\<close>

definition tagged_similar :: "nat \<times> entry \<Rightarrow> nat \<times> entry \<Rightarrow> bool" where
  "tagged_similar x y = similar (snd x) (snd y)"

section \<open>Example inputs\<close>

text \<open>A raw entry with a title and a summary only.\<close>

definition untitled :: "string \<Rightarrow> string \<Rightarrow> raw_entry" where
  "untitled t s = \<lparr>r_title = t, r_link = '''', r_summary = s, r_published = ''''\<rparr>"

text \<open>Two entries with empty summaries whose titles share keywords.\<close>

definition empty_summary_feeds :: feeds where
  "empty_summary_feeds =
     [(''A'', \<lparr>f_entries = [untitled ''Voice agents'' '''', untitled ''Voice agents today'' ''''],
              f_topics = [''ai''], f_category = ''''\<rparr>)]"

text \<open>An entry with neither title nor summary between two related entries.\<close>

definition blank_feeds :: feeds where
  "blank_feeds =
     [(''A'', \<lparr>f_entries = [untitled ''Voice agents'' ''Agents transform telecom'',
                             untitled '''' '''',
                             untitled ''Telecom agents'' ''''],
              f_topics = [''ai''], f_category = ''''\<rparr>)]"

text \<open>
  The first and the third entry have the same set of keywords, in another order and with
  a repetition; an unrelated entry stands between them.
\<close>

definition twin_feeds :: feeds where
  "twin_feeds =
     [(''A'', \<lparr>f_entries = [untitled ''Voice agents'' '''', untitled ''Chip prices'' ''''],
              f_topics = [''ai''], f_category = ''''\<rparr>),
      (''B'', \<lparr>f_entries = [untitled ''Agents: the voice of agents'' ''''],
              f_topics = [''telecom''], f_category = ''''\<rparr>)]"

text \<open>A cluster of six entries from four sources, without topics.\<close>

definition busy_cluster :: cluster where
  "busy_cluster =
     \<lparr>c_entries = replicate 6 \<lparr>e_title = ''Voice agents'', e_link = '''', e_summary = '''',
        e_published = '''', e_source = ''A'', e_source_topics = [],
        e_keywords = [''voice'', ''agents'']\<rparr>,
      c_keywords = [(''voice'', 6), (''agents'', 6)],
      c_sources = {''A'', ''B'', ''C'', ''D''}, c_topics = {}\<rparr>"

text \<open>A cluster of one entry from one source, whose only topic has no weight.\<close>

definition lone_cluster :: cluster where
  "lone_cluster = \<lparr>c_entries = [\<lparr>e_title = ''Voice agents'', e_link = '''', e_summary = '''',
       e_published = '''', e_source = ''A'', e_source_topics = [''misc''],
       e_keywords = [''voice'', ''agents'']\<rparr>],
     c_keywords = [(''voice'', 1), (''agents'', 1)], c_sources = {''A''}, c_topics = {''misc''}\<rparr>"

section \<open>Keyword extraction: properties\<close>

lemma is_az_word: "is_az c \<Longrightarrow> is_word_char c"
  by (simp add: is_az_def is_word_char_def Let_def)

lemma find_rev_upt_None: "(\<And>n. a \<le> n \<Longrightarrow> n < m \<Longrightarrow> \<not> P n) \<Longrightarrow> find P (rev [a ..< m]) = None"
  by (simp add: find_None_iff)

lemma find_rev_upt_Suc:
  "a \<le> m \<Longrightarrow> find P (rev [a ..< Suc m]) = (if P m then Some m else find P (rev [a ..< m]))"
  by simp

lemma takeWhile_az_prefix: "takeWhile is_az s = takeWhile is_az (takeWhile is_word_char s)"
  by (induction s) (auto simp: is_az_word)

lemma token_run_iff:
  "is_token (takeWhile is_word_char s)
   \<longleftrightarrow> 3 \<le> length (takeWhile is_az s) \<and> takeWhile is_word_char s = takeWhile is_az s"
proof
  assume t: "is_token (takeWhile is_word_char s)"
  then have "takeWhile is_az (takeWhile is_word_char s) = takeWhile is_word_char s"
    by (simp add: is_token_def list_all_iff)
  then have "takeWhile is_az s = takeWhile is_word_char s"
    using takeWhile_az_prefix [of s] by simp
  with t show "3 \<le> length (takeWhile is_az s) \<and> takeWhile is_word_char s = takeWhile is_az s"
    by (simp add: is_token_def)
next
  assume h: "3 \<le> length (takeWhile is_az s) \<and> takeWhile is_word_char s = takeWhile is_az s"
  have "list_all is_az (takeWhile is_az s)"
    by (auto simp: list_all_iff dest: set_takeWhileD)
  with h show "is_token (takeWhile is_word_char s)"
    by (simp add: is_token_def)
qed

lemma run_end:
  "takeWhile is_word_char s = takeWhile is_az s
   \<longleftrightarrow> \<not> is_word_opt (char_at s (length (takeWhile is_az s)))"
proof (induction s)
  case Nil
  then show ?case by (simp add: char_at_def is_word_opt_def)
next
  case (Cons c s)
  then show ?case
    by (auto simp: char_at_def is_word_opt_def is_az_word)
qed

lemma inside_run:
  assumes "n < length (takeWhile P s)"
  shows "char_at s n = Some (s ! n)" and "P (s ! n)"
proof -
  have "length (takeWhile P s) \<le> length s"
    by (rule length_takeWhile_le)
  with assms show "char_at s n = Some (s ! n)"
    by (simp add: char_at_def)
  have "takeWhile P s ! n = s ! n"
    using assms by (rule takeWhile_nth)
  moreover have "takeWhile P s ! n \<in> set (takeWhile P s)"
    using assms by simp
  ultimately show "P (s ! n)"
    by (auto dest: set_takeWhileD)
qed

lemma match_at_eq:
  "match_at left s =
     (if \<not> is_word_opt left \<and> is_token (takeWhile is_word_char s)
      then Some (length (takeWhile is_word_char s)) else None)"
proof -
  let ?m = "length (takeWhile is_az s)"
  let ?P = "\<lambda>n. word_boundary (char_at s (n - 1)) (char_at s n)"
  have inner: "\<not> ?P n" if "3 \<le> n" "n < ?m" for n
  proof -
    have "is_word_opt (char_at s (n - 1))"
      using inside_run [of "n - 1" is_az s] that by (simp add: is_word_opt_def is_az_word)
    moreover have "is_word_opt (char_at s n)"
      using inside_run [of n is_az s] that by (simp add: is_word_opt_def is_az_word)
    ultimately show ?thesis
      by (simp add: word_boundary_def)
  qed
  have none: "find ?P (rev [3 ..< ?m]) = None"
    by (rule find_rev_upt_None) (rule inner)
  have last: "?P ?m \<longleftrightarrow> takeWhile is_word_char s = takeWhile is_az s" if "3 \<le> ?m"
  proof -
    have "is_word_opt (char_at s (?m - 1))"
      using inside_run [of "?m - 1" is_az s] that by (simp add: is_word_opt_def is_az_word)
    then show ?thesis
      by (simp add: word_boundary_def run_end)
  qed
  have found: "find ?P (rev [3 ..< Suc ?m]) =
      (if is_token (takeWhile is_word_char s) then Some (length (takeWhile is_word_char s)) else None)"
  proof (cases "3 \<le> ?m")
    case True
    then show ?thesis
      using last none by (simp add: find_rev_upt_Suc token_run_iff del: upt_Suc)
  next
    case False
    then have "[3 ..< Suc ?m] = []"
      by simp
    with False show ?thesis
      by (simp add: token_run_iff del: upt_Suc)
  qed
  have first: "word_boundary left (char_at s 0) \<longleftrightarrow> \<not> is_word_opt left"
    if "is_token (takeWhile is_word_char s)"
  proof -
    from that have "takeWhile is_word_char s \<noteq> []"
      by (auto simp: is_token_def)
    then have "is_word_opt (char_at s 0)"
      by (cases s) (auto simp: char_at_def is_word_opt_def split: if_splits)
    then show ?thesis
      by (auto simp: word_boundary_def)
  qed
  show ?thesis
    unfolding match_at_def found using first by auto
qed

lemma findall_runs:
  "findall left s =
     filter is_token (runs is_word_char (if is_word_opt left then dropWhile is_word_char s else s))"
proof (induction left s rule: findall.induct)
  case (1 left)
  then show ?case by simp
next
  case (2 left c cs)
  let ?W = is_word_char
  show ?case
  proof (cases "match_at left (c # cs)")
    case None
    then have nt: "is_word_opt left \<or> \<not> is_token (takeWhile ?W (c # cs))"
      by (simp add: match_at_eq split: if_splits)
    have ih: "findall (Some c) cs =
        filter is_token (runs ?W (if ?W c then dropWhile ?W cs else cs))"
      using "2.IH"(1) [OF None] by (simp add: is_word_opt_def)
    show ?thesis
    proof (cases "is_word_opt left")
      case True
      with None ih show ?thesis by simp
    next
      case False
      with nt have "\<not> is_token (takeWhile ?W (c # cs))"
        by simp
      with None ih False show ?thesis by (cases "?W c") simp_all
    qed
  next
    case (Some n)
    then have l: "\<not> is_word_opt left" and t: "is_token (takeWhile ?W (c # cs))"
      and n: "n = length (takeWhile ?W (c # cs))"
      by (simp_all add: match_at_eq split: if_splits)
    from t have wc: "?W c"
      by (auto simp: is_token_def split: if_splits)
    have tk: "take n (c # cs) = takeWhile ?W (c # cs)"
      unfolding n by (rule takeWhile_eq_take [symmetric])
    have dr: "drop n (c # cs) = dropWhile ?W (c # cs)"
      unfolding n by (rule dropWhile_eq_drop [symmetric])
    have "n - 1 < length (takeWhile ?W (c # cs))"
      using wc n by simp
    then have lw: "is_word_opt (char_at (c # cs) (n - 1))"
      using inside_run [of "n - 1" ?W "c # cs"] by (simp add: is_word_opt_def)
    have "findall (char_at (c # cs) (n - 1)) (drop n (c # cs)) =
        filter is_token (runs ?W (dropWhile ?W (drop n (c # cs))))"
      using "2.IH"(2) [OF Some] lw by simp
    then have ih: "findall (char_at (c # cs) (n - 1)) (drop n (c # cs)) =
        filter is_token (runs ?W (dropWhile ?W cs))"
      using wc by (simp add: dr)
    show ?thesis
      using Some l t wc ih tk by simp
  qed
qed

lemma extract_keywords_runs: "extract_keywords text = whole_word_keywords text"
  by (simp add: extract_keywords_def whole_word_keywords_def findall_runs is_word_opt_def)

lemma lower_az: "list_all is_az w \<Longrightarrow> lower w = w"
  by (induction w) (auto simp: lower_def lower_char_def is_az_def Let_def)

text \<open>
  Claim C2, as the program behaves. The keywords of a text are the maximal runs of word
  characters (letters, digits, underscore) of the lowercased text that have at least 3
  characters, all of them letters a to z, in order of occurrence and without the stop
  words; a run of letters that touches a digit or another word character is no keyword.
  So every keyword is lowercase, has at least 3 letters and is no stop word; the
  extraction is a function of the text alone.
\<close>

theorem extract_keywords_whole_words:
  "extract_keywords text = whole_word_keywords text
   \<and> (\<forall>w \<in> set (extract_keywords text).
         3 \<le> length w \<and> list_all is_az w \<and> lower w = w \<and> w \<notin> stop_words)"
  by (auto simp: extract_keywords_runs whole_word_keywords_def is_token_def lower_az)

theorem extract_keywords_whole_words_witness:
  "extract_keywords ''Voice agents and abc123 in the U.S.A'' = [''voice'', ''agents'']
   \<and> 3 \<le> length ''voice'' \<and> list_all is_az ''voice'' \<and> lower ''voice'' = ''voice''
   \<and> ''voice'' \<notin> stop_words"
proof -
  let ?text = "''Voice agents and abc123 in the U.S.A''"
  have w: "whole_word_keywords ?text = [''voice'', ''agents'']"
    by code_simp
  note t = extract_keywords_whole_words [of ?text]
  from t w have e: "extract_keywords ?text = [''voice'', ''agents'']"
    by simp
  then have "''voice'' \<in> set (extract_keywords ?text)"
    by simp
  with t have "3 \<le> length ''voice'' \<and> list_all is_az ''voice'' \<and> lower ''voice'' = ''voice''
      \<and> ''voice'' \<notin> stop_words"
    by blast
  with e show ?thesis
    by blast
qed

text \<open>
  Claim C2, as stated, fails: in \<open>abc123\<close> the letters \<open>abc\<close> are a maximal run of
  ASCII letters of length 3 and no stop word, yet the program extracts nothing.
\<close>

theorem extract_keywords_not_letter_runs:
  "extract_keywords ''abc123'' = [] \<and> letter_run_keywords ''abc123'' = [''abc'']"
  by code_simp

section \<open>Similarity: properties\<close>

lemma card_Int_le_Un: "card (set A \<inter> set B) \<le> card (set A \<union> set B)"
  by (rule card_mono) auto

lemma calculate_similarity_nonempty:
  "A \<noteq> [] \<Longrightarrow> B \<noteq> [] \<Longrightarrow>
     calculate_similarity A B = of_nat (card (set A \<inter> set B)) / of_nat (card (set A \<union> set B))"
  by (simp add: calculate_similarity_def Let_def)

text \<open>
  Claim C6. For all keyword lists \<open>A\<close> and \<open>B\<close> the similarity lies between 0 and 1, is
  symmetric, is 0 when \<open>A\<close> or \<open>B\<close> is empty, is 1 for a non-empty list against itself,
  and for non-empty lists is the Jaccard index of the sets of distinct tokens, so that
  a token repeated in one list adds no weight.
\<close>

theorem calculate_similarity_jaccard:
  "0 \<le> calculate_similarity A B \<and> calculate_similarity A B \<le> 1
   \<and> calculate_similarity A B = calculate_similarity B A
   \<and> (A = [] \<or> B = [] \<longrightarrow> calculate_similarity A B = 0)
   \<and> (A \<noteq> [] \<longrightarrow> calculate_similarity A A = 1)
   \<and> (A \<noteq> [] \<and> B \<noteq> [] \<longrightarrow>
        calculate_similarity A B = of_nat (card (set A \<inter> set B)) / of_nat (card (set A \<union> set B)))"
proof (intro conjI impI)
  show "0 \<le> calculate_similarity A B"
    by (simp add: calculate_similarity_def Let_def)
  show "calculate_similarity A B \<le> 1"
    using card_Int_le_Un [of A B]
    by (simp add: calculate_similarity_def Let_def divide_le_eq_1)
  show "calculate_similarity A B = calculate_similarity B A"
    by (auto simp: calculate_similarity_def Let_def Int_commute Un_commute)
  show "calculate_similarity A B = 0" if "A = [] \<or> B = []"
    using that by (auto simp: calculate_similarity_def)
  show "calculate_similarity A A = 1" if "A \<noteq> []"
  proof -
    have "0 < card (set A)"
      using that by (simp add: card_gt_0_iff)
    then show ?thesis
      using that by (simp add: calculate_similarity_def Let_def)
  qed
  show "calculate_similarity A B = of_nat (card (set A \<inter> set B)) / of_nat (card (set A \<union> set B))"
    if "A \<noteq> [] \<and> B \<noteq> []"
    using that by (simp add: calculate_similarity_nonempty)
qed

theorem calculate_similarity_jaccard_witness:
  "calculate_similarity [''voice'', ''agents'', ''voice''] [''agents'', ''tools''] = 1 / 3
   \<and> calculate_similarity [''voice'', ''agents'', ''voice''] [''voice'', ''agents'', ''voice''] = 1
   \<and> calculate_similarity [''voice'', ''agents'', ''voice''] [] = 0"
  using calculate_similarity_jaccard [of "[''voice'', ''agents'', ''voice'']" "[''agents'', ''tools'']"]
    calculate_similarity_jaccard [of "[''voice'', ''agents'', ''voice'']" "[]"]
  by (simp add: card_insert_if)

section \<open>Clustering: the loops compute the seed groups\<close>

lemma absorb_Nil: "absorb cl [] = cl"
  by (simp add: absorb_def counter_update_def)

lemma absorb_Cons:
  "absorb (cl\<lparr>c_entries := c_entries cl @ [e],
              c_keywords := counter_update (c_keywords cl) (e_keywords e),
              c_sources := insert (e_source e) (c_sources cl),
              c_topics := c_topics cl \<union> set (e_source_topics e)\<rparr>) es
   = absorb cl (e # es)"
  by (simp add: absorb_def counter_update_def Un_assoc)

lemma cluster_of_Cons:
  "cluster_of (e # es) =
     absorb \<lparr>c_entries = [e], c_keywords = counter_update [] (e_keywords e),
             c_sources = {e_source e}, c_topics = set (e_source_topics e)\<rparr> es"
  by (simp add: cluster_of_def absorb_def counter_update_def)

lemma find_similar_Cons:
  "find_similar e ((j, other) # rest) (cl, used) =
     (if j \<in> used then find_similar e rest (cl, used)
      else if similar e other
      then find_similar e rest
             (cl\<lparr>c_entries := c_entries cl @ [other],
                 c_keywords := counter_update (c_keywords cl) (e_keywords other),
                 c_sources := insert (e_source other) (c_sources cl),
                 c_topics := c_topics cl \<union> set (e_source_topics other)\<rparr>,
              insert j used)
      else find_similar e rest (cl, used))"
  by (simp only: find_similar.simps similar_def)

lemma find_similar_filter:
  assumes "distinct (map fst cands)"
  shows "find_similar e cands (cl, used) =
           (absorb cl (map snd (filter (\<lambda>(j, other). j \<notin> used \<and> similar e other) cands)),
            used \<union> fst ` set (filter (\<lambda>(j, other). j \<notin> used \<and> similar e other) cands))"
  using assms
proof (induction cands arbitrary: cl used)
  case Nil
  then show ?case by (simp add: absorb_Nil)
next
  case (Cons x cands)
  obtain j other where x: "x = (j, other)"
    by (cases x)
  from Cons.prems x have fresh: "j \<notin> fst ` set cands" and d: "distinct (map fst cands)"
    by auto
  have same: "filter (\<lambda>(j', o'). j' \<notin> insert j used \<and> similar e o') cands
              = filter (\<lambda>(j', o'). j' \<notin> used \<and> similar e o') cands"
    using fresh by (intro filter_cong) (auto simp: image_iff)
  show ?case
  proof (cases "j \<in> used")
    case True
    then show ?thesis
      unfolding x find_similar_Cons using Cons.IH [OF d, of cl used] by simp
  next
    case False
    show ?thesis
    proof (cases "similar e other")
      case True
      have "find_similar e ((j, other) # cands) (cl, used)
            = (absorb cl (other # map snd (filter (\<lambda>(j', o'). j' \<notin> used \<and> similar e o') cands)),
               insert j used \<union> fst ` set (filter (\<lambda>(j', o'). j' \<notin> used \<and> similar e o') cands))"
        unfolding find_similar_Cons using False True
        by (simp only: if_False if_True Cons.IH [OF d] same absorb_Cons)
      with False True show ?thesis
        unfolding x by simp
    next
      case nsim: False
      with False show ?thesis
        unfolding x find_similar_Cons using Cons.IH [OF d, of cl used] by simp
    qed
  qed
qed

lemma unused_after_seed:
  assumes "distinct (map fst rest)" and "k \<notin> fst ` set rest"
  shows "filter (\<lambda>(j, other). j \<notin> insert k used \<union>
                   fst ` set (filter (\<lambda>(j, other). j \<notin> insert k used \<and> P other) rest)) rest
         = filter (\<lambda>(j, other). \<not> P other) (filter (\<lambda>(j, other). j \<notin> used) rest)"
proof -
  let ?added = "filter (\<lambda>(j, other). j \<notin> insert k used \<and> P other) rest"
  have key: "(j \<notin> insert k used \<union> fst ` set ?added) \<longleftrightarrow> (j \<notin> used \<and> \<not> P other)"
    if m: "(j, other) \<in> set rest" for j other
  proof -
    from m have "j \<in> fst ` set rest"
      by (rule image_eqI [rotated]) simp
    with assms(2) have jk: "j \<noteq> k"
      by blast
    have uniq: "o' = other" if "(j, o') \<in> set rest" for o'
      using assms(1) that m by (rule eq_key_imp_eq_value)
    have "j \<in> fst ` set ?added \<longleftrightarrow> j \<notin> used \<and> P other"
    proof
      assume "j \<in> fst ` set ?added"
      then obtain y where y: "y \<in> set ?added" and "j = fst y"
        by (rule imageE)
      then have "(j, snd y) \<in> set ?added"
        by simp
      then have "(j, snd y) \<in> set rest" and "j \<notin> used" and "P (snd y)"
        by simp_all
      with uniq [of "snd y"] show "j \<notin> used \<and> P other"
        by simp
    next
      assume "j \<notin> used \<and> P other"
      with m jk have "(j, other) \<in> set ?added"
        by simp
      then show "j \<in> fst ` set ?added"
        by (rule image_eqI [rotated]) simp
    qed
    with jk show ?thesis
      by blast
  qed
  have "filter (\<lambda>(j, other). j \<notin> insert k used \<union> fst ` set ?added) rest
        = filter (\<lambda>(j, other). j \<notin> used \<and> \<not> P other) rest"
    by (rule filter_cong [OF refl]) (use key in \<open>simp only: split_paired_all case_prod_conv\<close>)
  also have "\<dots> = filter (\<lambda>(j, other). \<not> P other) (filter (\<lambda>(j, other). j \<notin> used) rest)"
    by (simp add: case_prod_unfold)
  finally show ?thesis .
qed

lemma added_to_seed:
  assumes "k \<notin> fst ` set rest"
  shows "filter (\<lambda>(j, other). j \<notin> insert k used \<and> P other) rest
         = filter (\<lambda>(j, other). P other) (filter (\<lambda>(j, other). j \<notin> used) rest)"
  unfolding filter_filter using assms by (intro filter_cong) (auto simp: image_iff)

lemma enumerate_drop:
  "k < length xs \<Longrightarrow> enumerate k (drop k xs) = (k, xs ! k) # enumerate (Suc k) (drop (Suc k) xs)"
  by (simp add: Cons_nth_drop_Suc [symmetric])

lemma fst_enumerate: "fst ` set (enumerate n xs) = {n ..< n + length xs}"
proof -
  have "set (map fst (enumerate n xs)) = {n ..< n + length xs}"
    by (simp only: map_fst_enumerate set_upt)
  then show ?thesis
    by (simp only: set_map)
qed

lemma distinct_fst_enumerate: "distinct (map fst (enumerate n xs))"
  by (simp add: map_fst_enumerate)

lemma cluster_loop_groups:
  "fst (cluster_loop all_entries (enumerate k (drop k all_entries)) (clusters, used))
   = clusters @ map (\<lambda>g. cluster_of (map snd g))
       (seed_groups tagged_similar
          (filter (\<lambda>(j, other). j \<notin> used) (enumerate k (drop k all_entries))))"
proof (induction "length all_entries - k" arbitrary: k clusters used)
  case 0
  then show ?case by simp
next
  case (Suc n)
  then have k: "k < length all_entries" and n: "n = length all_entries - Suc k"
    by simp_all
  let ?e = "all_entries ! k"
  let ?rest = "enumerate (Suc k) (drop (Suc k) all_entries)"
  note ih = Suc.hyps(1) [OF n]
  have d: "distinct (map fst ?rest)"
    by (rule distinct_fst_enumerate)
  have fresh: "k \<notin> fst ` set ?rest"
    by (simp add: fst_enumerate)
  show ?case
  proof (cases "k \<in> used")
    case True
    then show ?thesis
      using ih by (simp add: enumerate_drop [OF k])
  next
    case False
    let ?cl = "\<lparr>c_entries = [?e], c_keywords = counter_update [] (e_keywords ?e),
                c_sources = {e_source ?e}, c_topics = set (e_source_topics ?e)\<rparr>"
    let ?added = "filter (\<lambda>(j, other). j \<notin> insert k used \<and> similar ?e other) ?rest"
    let ?unused = "filter (\<lambda>(j, other). j \<notin> used) ?rest"
    have inner: "find_similar ?e ?rest (?cl, insert k used)
                 = (absorb ?cl (map snd ?added), insert k used \<union> fst ` set ?added)"
      by (rule find_similar_filter [OF d])
    have a: "?added = filter (tagged_similar (k, ?e)) ?unused"
      using added_to_seed [OF fresh, of used "similar ?e"]
      by (simp add: tagged_similar_def case_prod_unfold)
    have b: "filter (\<lambda>(j, other). j \<notin> insert k used \<union> fst ` set ?added) ?rest
             = filter (\<lambda>y. \<not> tagged_similar (k, ?e) y) ?unused"
      using unused_after_seed [OF d fresh, of used "similar ?e"]
      by (simp add: tagged_similar_def case_prod_unfold)
    have "fst (cluster_loop all_entries (enumerate k (drop k all_entries)) (clusters, used))
          = fst (cluster_loop all_entries ?rest
                   (clusters @ [absorb ?cl (map snd ?added)], insert k used \<union> fst ` set ?added))"
      using False inner by (simp add: enumerate_drop [OF k])
    also have "\<dots> = (clusters @ [absorb ?cl (map snd ?added)])
         @ map (\<lambda>g. cluster_of (map snd g))
             (seed_groups tagged_similar (filter (\<lambda>y. \<not> tagged_similar (k, ?e) y) ?unused))"
      unfolding ih b ..
    also have "\<dots> = clusters @ map (\<lambda>g. cluster_of (map snd g))
         (seed_groups tagged_similar ((k, ?e) # ?unused))"
    proof -
      have g: "seed_groups tagged_similar ((k, ?e) # ?unused)
               = ((k, ?e) # filter (tagged_similar (k, ?e)) ?unused)
                 # seed_groups tagged_similar (filter (\<lambda>y. \<not> tagged_similar (k, ?e) y) ?unused)"
        by (simp only: seed_groups.simps)
      have c: "cluster_of (?e # map snd (filter (tagged_similar (k, ?e)) ?unused))
               = absorb ?cl (map snd ?added)"
        unfolding a by (simp only: cluster_of_Cons)
      show ?thesis
        by (simp only: g c list.map snd_conv append_assoc append.simps)
    qed
    also have "(k, ?e) # ?unused
         = filter (\<lambda>(j, other). j \<notin> used) (enumerate k (drop k all_entries))"
      using False by (simp add: enumerate_drop [OF k])
    finally show ?thesis .
  qed
qed

lemma cluster_topics_groups:
  "cluster_topics feeds_data
   = map (\<lambda>g. cluster_of (map snd g))
       (seed_groups tagged_similar (enumerate 0 (collect_entries feeds_data)))"
  using cluster_loop_groups [of "collect_entries feeds_data" 0 "[]" "{}"]
  by (simp add: cluster_topics_def Let_def)

lemma tagged_similar_fun: "tagged_similar x = (\<lambda>y. similar (snd x) (snd y))"
  by (simp add: fun_eq_iff tagged_similar_def)

lemma seed_groups_map_snd:
  "seed_groups similar (map snd xs) = map (map snd) (seed_groups tagged_similar xs)"
proof (induction "length xs" arbitrary: xs rule: less_induct)
  case less
  show ?case
  proof (cases xs)
    case Nil
    then show ?thesis by simp
  next
    case (Cons x rest)
    have "length (filter (\<lambda>y. \<not> tagged_similar x y) rest) < length xs"
      using Cons by (simp add: le_imp_less_Suc)
    from less [OF this] show ?thesis
      unfolding Cons by (simp add: filter_map comp_def tagged_similar_fun)
  qed
qed

lemma mset_seed_groups: "mset (concat (seed_groups sim xs)) = mset xs"
proof (induction "length xs" arbitrary: xs rule: less_induct)
  case less
  show ?case
  proof (cases xs)
    case Nil
    then show ?thesis by simp
  next
    case (Cons x rest)
    have "length (filter (\<lambda>y. \<not> sim x y) rest) < length xs"
      using Cons by (simp add: le_imp_less_Suc)
    from less [OF this] show ?thesis
      unfolding Cons by simp
  qed
qed

section \<open>Clustering: properties\<close>

lemma c_entries_cluster_of: "c_entries (cluster_of es) = es"
  by (simp add: cluster_of_def)

lemma cluster_topics_entries:
  "map c_entries (cluster_topics feeds_data)
   = map (map snd) (seed_groups tagged_similar (enumerate 0 (collect_entries feeds_data)))"
  by (simp add: cluster_topics_groups comp_def c_entries_cluster_of)

lemma cluster_topics_seed_groups:
  "cluster_topics feeds_data = map cluster_of (seed_groups similar (collect_entries feeds_data))"
proof -
  have "seed_groups similar (collect_entries feeds_data)
        = map (map snd) (seed_groups tagged_similar (enumerate 0 (collect_entries feeds_data)))"
    using seed_groups_map_snd [of "enumerate 0 (collect_entries feeds_data)"]
    by (simp only: map_snd_enumerate)
  then show ?thesis
    by (simp add: cluster_topics_groups comp_def)
qed

lemma seed_groups_singleton:
  assumes "x \<in> set xs" and "\<And>s. \<not> sim s x" and "\<And>y. \<not> sim x y"
  shows "[x] \<in> set (seed_groups sim xs)"
  using assms(1)
proof (induction "length xs" arbitrary: xs rule: less_induct)
  case less
  show ?case
  proof (cases xs)
    case Nil
    with less.prems show ?thesis by simp
  next
    case (Cons s rest)
    show ?thesis
    proof (cases "x = s")
      case True
      have "filter (sim x) rest = []"
        using assms(3) by (simp add: filter_empty_conv)
      with True show ?thesis
        unfolding Cons by simp
    next
      case False
      let ?others = "filter (\<lambda>y. \<not> sim s y) rest"
      from False less.prems Cons have "x \<in> set ?others"
        using assms(2) by simp
      moreover have "length ?others < length xs"
        using Cons by (simp add: le_imp_less_Suc)
      ultimately have "[x] \<in> set (seed_groups sim ?others)"
        by (rule less.hyps [rotated])
      then show ?thesis
        unfolding Cons by simp
    qed
  qed
qed

lemma seed_groups_together:
  assumes "x \<in> set xs" and "y \<in> set xs"
    and same: "\<And>s. sim s x = sim s y" and xy: "sim x y" and yx: "sim y x"
  shows "\<exists>g \<in> set (seed_groups sim xs). x \<in> set g \<and> y \<in> set g"
  using assms(1,2)
proof (induction "length xs" arbitrary: xs rule: less_induct)
  case less
  show ?case
  proof (cases xs)
    case Nil
    with less.prems show ?thesis by simp
  next
    case (Cons s rest)
    let ?first = "s # filter (sim s) rest"
    let ?others = "filter (\<lambda>y. \<not> sim s y) rest"
    have groups: "seed_groups sim xs = ?first # seed_groups sim ?others"
      unfolding Cons by simp
    show ?thesis
    proof (cases "sim s x \<or> x = s \<or> y = s")
      case True
      have "x \<in> set ?first \<and> y \<in> set ?first"
      proof (cases "x = s")
        case xs: True
        with less.prems(2) Cons xy show ?thesis
          by auto
      next
        case nx: False
        show ?thesis
        proof (cases "y = s")
          case True
          with less.prems(1) Cons yx nx show ?thesis
            by auto
        next
          case False
          with nx True have "sim s x" and "sim s y"
            using same by simp_all
          with less.prems Cons nx False show ?thesis
            by auto
        qed
      qed
      then show ?thesis
        unfolding groups by simp
    next
      case False
      then have "\<not> sim s x" and "\<not> sim s y" and "x \<noteq> s" and "y \<noteq> s"
        using same by simp_all
      with less.prems Cons have "x \<in> set ?others" and "y \<in> set ?others"
        by simp_all
      moreover have "length ?others < length xs"
        using Cons by (simp add: le_imp_less_Suc)
      ultimately have "\<exists>g \<in> set (seed_groups sim ?others). x \<in> set g \<and> y \<in> set g"
        using less.hyps by blast
      then show ?thesis
        unfolding groups by auto
    qed
  qed
qed

lemma calculate_similarity_set:
  assumes "set B = set B'"
  shows "calculate_similarity A B = calculate_similarity A B'"
proof -
  from assms have "B = [] \<longleftrightarrow> B' = []"
    by (metis set_empty)
  with assms show ?thesis
    by (simp add: calculate_similarity_def)
qed

lemma similar_same_keywords:
  assumes "set (e_keywords a) = set (e_keywords b)" and "e_keywords a \<noteq> []"
  shows "similar a b"
proof -
  have "calculate_similarity (e_keywords a) (e_keywords b)
        = calculate_similarity (e_keywords a) (e_keywords a)"
    using assms(1) by (rule calculate_similarity_set [OF sym])
  also have "\<dots> = 1"
  proof -
    have "0 < card (set (e_keywords a))"
      using assms(2) by (simp add: card_gt_0_iff)
    then show ?thesis
      using assms(2) by (simp add: calculate_similarity_def Let_def)
  qed
  finally show ?thesis
    by (simp add: similar_def)
qed

lemma similar_no_keywords:
  "e_keywords a = [] \<Longrightarrow> \<not> similar a b" "e_keywords a = [] \<Longrightarrow> \<not> similar b a"
  by (simp_all add: similar_def calculate_similarity_def)

lemma enumerate_member: "p < length xs \<Longrightarrow> (p, xs ! p) \<in> set (enumerate 0 xs)"
  by (simp add: in_set_enumerate_eq)

lemma collected_keywords:
  "e \<in> set (collect_entries feeds_data)
   \<Longrightarrow> e_keywords e = extract_keywords (e_title e @ '' '' @ e_summary e)"
  by (auto simp: collect_entries_def make_entry_def)

lemma extract_keywords_blank: "extract_keywords ('''' @ '' '' @ '''') = []"
  by code_simp

text \<open>
  Claim C1. For every input the clusters partition the collected entries: the sizes of
  the clusters add up to the number of entries, the clusters together hold the entries
  with their multiplicities, and the clusters' entry lists arise from groups of input
  positions in which every position occurs exactly once.
\<close>

theorem cluster_topics_partition:
  "sum_list (map (\<lambda>cl. length (c_entries cl)) (cluster_topics feeds_data))
     = length (collect_entries feeds_data)
   \<and> mset (concat (map c_entries (cluster_topics feeds_data))) = mset (collect_entries feeds_data)
   \<and> (\<exists>groups. map c_entries (cluster_topics feeds_data) = map (map snd) groups
         \<and> mset (concat groups) = mset (enumerate 0 (collect_entries feeds_data)))"
proof -
  let ?all = "collect_entries feeds_data"
  let ?groups = "seed_groups tagged_similar (enumerate 0 ?all)"
  have e: "map c_entries (cluster_topics feeds_data) = map (map snd) ?groups"
    by (rule cluster_topics_entries)
  have g: "mset (concat ?groups) = mset (enumerate 0 ?all)"
    by (rule mset_seed_groups)
  have "concat (map c_entries (cluster_topics feeds_data)) = map snd (concat ?groups)"
    unfolding e by (simp add: map_concat)
  then have "mset (concat (map c_entries (cluster_topics feeds_data)))
             = mset (map snd (concat ?groups))"
    by (rule arg_cong)
  also have "\<dots> = image_mset snd (mset (concat ?groups))"
    by (simp only: mset_map)
  also have "\<dots> = image_mset snd (mset (enumerate 0 ?all))"
    by (simp only: g)
  also have "\<dots> = mset (map snd (enumerate 0 ?all))"
    by (simp only: mset_map)
  also have "\<dots> = mset ?all"
    by (simp only: map_snd_enumerate)
  finally have m: "mset (concat (map c_entries (cluster_topics feeds_data))) = mset ?all" .
  have "sum_list (map (\<lambda>cl. length (c_entries cl)) (cluster_topics feeds_data))
        = length (concat (map c_entries (cluster_topics feeds_data)))"
    by (simp add: length_concat comp_def)
  also have "\<dots> = length ?all"
    using m by (rule mset_eq_length)
  finally have s: "sum_list (map (\<lambda>cl. length (c_entries cl)) (cluster_topics feeds_data))
                   = length ?all" .
  from s m e g show ?thesis
    by blast
qed

text \<open>
  Claim C7. The inner loop for a seed adds exactly the candidates behind it that are not
  yet used and whose similarity to the seed exceeds 0.15, and no other entry of the
  cluster is ever compared with a candidate; the candidates added are appended to the
  cluster's entries in their order, their keywords are counted into its counter, their
  sources and topics are united with the cluster's, and their positions become used.
  Over the whole input the clusters are therefore the seed groups.
\<close>

theorem find_similar_seed_only:
  "find_similar entry (enumerate (Suc i) (drop (Suc i) all_entries)) (cl, used)
     = (absorb cl (map snd (filter (\<lambda>(j, other). j \<notin> used \<and> similar entry other)
                              (enumerate (Suc i) (drop (Suc i) all_entries)))),
        used \<union> fst ` set (filter (\<lambda>(j, other). j \<notin> used \<and> similar entry other)
                              (enumerate (Suc i) (drop (Suc i) all_entries))))
   \<and> cluster_topics feeds_data = map cluster_of (seed_groups similar (collect_entries feeds_data))"
  using find_similar_filter [OF distinct_fst_enumerate] cluster_topics_seed_groups
  by blast

text \<open>
  Claim C9, as the program behaves. Without entries there are no suggestions. An entry
  whose title and summary are both empty has no keywords; an entry without keywords has
  similarity 0 with every keyword list, on either side, and is a cluster of its own.
\<close>

theorem no_keywords_singleton:
  "(collect_entries feeds_data = [] \<longrightarrow> generate_suggestions tw topic_order (cluster_topics feeds_data) = [])
   \<and> (p < length (collect_entries feeds_data)
        \<and> e_title (collect_entries feeds_data ! p) = []
        \<and> e_summary (collect_entries feeds_data ! p) = []
      \<longrightarrow> e_keywords (collect_entries feeds_data ! p) = [])
   \<and> (p < length (collect_entries feeds_data) \<and> e_keywords (collect_entries feeds_data ! p) = []
      \<longrightarrow> (\<forall>kws. calculate_similarity (e_keywords (collect_entries feeds_data ! p)) kws = 0
                \<and> calculate_similarity kws (e_keywords (collect_entries feeds_data ! p)) = 0)
          \<and> (\<exists>groups. map c_entries (cluster_topics feeds_data) = map (map snd) groups
                \<and> mset (concat groups) = mset (enumerate 0 (collect_entries feeds_data))
                \<and> [(p, collect_entries feeds_data ! p)] \<in> set groups))"
proof (intro conjI impI)
  let ?all = "collect_entries feeds_data"
  let ?groups = "seed_groups tagged_similar (enumerate 0 ?all)"
  show "generate_suggestions tw topic_order (cluster_topics feeds_data) = []" if "?all = []"
    using that by (simp add: cluster_topics_def generate_suggestions_def)
  show "e_keywords (?all ! p) = []"
    if "p < length ?all \<and> e_title (?all ! p) = [] \<and> e_summary (?all ! p) = []"
  proof -
    from that have "?all ! p \<in> set ?all"
      by simp
    then have "e_keywords (?all ! p) = extract_keywords (e_title (?all ! p) @ '' '' @ e_summary (?all ! p))"
      by (rule collected_keywords)
    with that show ?thesis
      using extract_keywords_blank by simp
  qed
  assume h: "p < length ?all \<and> e_keywords (?all ! p) = []"
  then show "\<forall>kws. calculate_similarity (e_keywords (?all ! p)) kws = 0
                \<and> calculate_similarity kws (e_keywords (?all ! p)) = 0"
    by (simp add: calculate_similarity_def)
  have "[(p, ?all ! p)] \<in> set ?groups"
  proof (rule seed_groups_singleton)
    show "(p, ?all ! p) \<in> set (enumerate 0 ?all)"
      using h by (simp add: enumerate_member)
    show "\<not> tagged_similar s (p, ?all ! p)" for s
      using h by (simp add: tagged_similar_def similar_no_keywords)
    show "\<not> tagged_similar (p, ?all ! p) y" for y
      using h by (simp add: tagged_similar_def similar_no_keywords)
  qed
  moreover have "map c_entries (cluster_topics feeds_data) = map (map snd) ?groups"
    by (rule cluster_topics_entries)
  moreover have "mset (concat ?groups) = mset (enumerate 0 ?all)"
    by (rule mset_seed_groups)
  ultimately show "\<exists>groups. map c_entries (cluster_topics feeds_data) = map (map snd) groups
                \<and> mset (concat groups) = mset (enumerate 0 ?all)
                \<and> [(p, ?all ! p)] \<in> set groups"
    by blast
qed

theorem no_keywords_singleton_witness:
  "generate_suggestions Map.empty (\<lambda>cl. []) (cluster_topics []) = []
   \<and> e_keywords (collect_entries blank_feeds ! 1) = []
   \<and> (\<exists>groups. map c_entries (cluster_topics blank_feeds) = map (map snd) groups
         \<and> mset (concat groups) = mset (enumerate 0 (collect_entries blank_feeds))
         \<and> [(1, collect_entries blank_feeds ! 1)] \<in> set groups)"
proof -
  have a: "collect_entries [] = []"
    by (simp add: collect_entries_def)
  have b: "1 < length (collect_entries blank_feeds)
           \<and> e_title (collect_entries blank_feeds ! 1) = []
           \<and> e_summary (collect_entries blank_feeds ! 1) = []"
    by code_simp
  have c: "e_keywords (collect_entries blank_feeds ! 1) = []"
    using no_keywords_singleton [of blank_feeds Map.empty "\<lambda>cl. []" 1] b by blast
  with b have d: "1 < length (collect_entries blank_feeds)
                  \<and> e_keywords (collect_entries blank_feeds ! 1) = []"
    by simp
  show ?thesis
    using no_keywords_singleton [of "[]" Map.empty "\<lambda>cl. []" 0] a
      no_keywords_singleton [of blank_feeds Map.empty "\<lambda>cl. []" 1] c d
    by blast
qed

text \<open>
  Claim C9, as stated, fails: keywords come from the title as well as from the summary.
  Two entries with empty summaries have keywords from their titles and share a cluster.
\<close>

theorem empty_summary_not_isolated:
  "map e_summary (collect_entries empty_summary_feeds) = ['''', '''']
   \<and> map e_keywords (collect_entries empty_summary_feeds)
       = [[''voice'', ''agents''], [''voice'', ''agents'', ''today'']]
   \<and> map (\<lambda>cl. map e_title (c_entries cl)) (cluster_topics empty_summary_feeds)
       = [[''Voice agents'', ''Voice agents today'']]"
  by code_simp

text \<open>
  Claim C10. Two entries whose keyword lists have the same non-empty set of tokens are in
  one cluster, wherever they stand in the input and whatever stands between them: their
  positions lie in one group of the partition of the positions.
\<close>

theorem same_keywords_same_cluster:
  assumes "p < length (collect_entries feeds_data)" and "q < length (collect_entries feeds_data)"
    and "set (e_keywords (collect_entries feeds_data ! p))
         = set (e_keywords (collect_entries feeds_data ! q))"
    and "e_keywords (collect_entries feeds_data ! p) \<noteq> []"
  shows "\<exists>groups. map c_entries (cluster_topics feeds_data) = map (map snd) groups
           \<and> mset (concat groups) = mset (enumerate 0 (collect_entries feeds_data))
           \<and> (\<exists>g \<in> set groups. (p, collect_entries feeds_data ! p) \<in> set g
                                \<and> (q, collect_entries feeds_data ! q) \<in> set g)"
proof -
  let ?all = "collect_entries feeds_data"
  let ?groups = "seed_groups tagged_similar (enumerate 0 ?all)"
  from assms(3,4) have nq: "e_keywords (?all ! q) \<noteq> []"
    by (metis set_empty)
  have "\<exists>g \<in> set ?groups. (p, ?all ! p) \<in> set g \<and> (q, ?all ! q) \<in> set g"
  proof (rule seed_groups_together)
    show "(p, ?all ! p) \<in> set (enumerate 0 ?all)"
      using assms(1) by (rule enumerate_member)
    show "(q, ?all ! q) \<in> set (enumerate 0 ?all)"
      using assms(2) by (rule enumerate_member)
    show "tagged_similar s (p, ?all ! p) = tagged_similar s (q, ?all ! q)" for s
      using calculate_similarity_set [OF assms(3)]
      by (simp add: tagged_similar_def similar_def)
    show "tagged_similar (p, ?all ! p) (q, ?all ! q)"
      using similar_same_keywords [OF assms(3,4)] by (simp add: tagged_similar_def)
    show "tagged_similar (q, ?all ! q) (p, ?all ! p)"
      using similar_same_keywords [OF assms(3) [symmetric] nq] by (simp add: tagged_similar_def)
  qed
  moreover have "map c_entries (cluster_topics feeds_data) = map (map snd) ?groups"
    by (rule cluster_topics_entries)
  moreover have "mset (concat ?groups) = mset (enumerate 0 ?all)"
    by (rule mset_seed_groups)
  ultimately show ?thesis
    by blast
qed

theorem same_keywords_same_cluster_witness:
  "\<exists>groups. map c_entries (cluster_topics twin_feeds) = map (map snd) groups
     \<and> mset (concat groups) = mset (enumerate 0 (collect_entries twin_feeds))
     \<and> (\<exists>g \<in> set groups. (0, collect_entries twin_feeds ! 0) \<in> set g
                          \<and> (2, collect_entries twin_feeds ! 2) \<in> set g)"
proof -
  have "0 < length (collect_entries twin_feeds)" and "2 < length (collect_entries twin_feeds)"
    and "set (e_keywords (collect_entries twin_feeds ! 0))
         = set (e_keywords (collect_entries twin_feeds ! 2))"
    and "e_keywords (collect_entries twin_feeds ! 0) \<noteq> []"
    by code_simp+
  then show ?thesis
    by (rule same_keywords_same_cluster)
qed

section \<open>Scoring: properties\<close>

lemma round_half_even_nonneg: "0 \<le> x \<Longrightarrow> 0 \<le> round_half_even x"
  by (simp add: round_half_even_def Let_def)

lemma pow2_pos: "0 < pow2 e"
  by (simp add: pow2_def)

lemma huge_pos: "0 < huge"
  by (simp add: huge_def pow2_pos)

lemma fl_nonneg:
  assumes "0 \<le> x"
  shows "0 \<le> fl x"
proof (cases "x = 0")
  case True
  then show ?thesis by (simp add: fl_def)
next
  case False
  define q where "q = pow2 (max (ilog2 \<bar>x\<bar>) (- 1022) - 52)"
  have "0 < q"
    unfolding q_def by (rule pow2_pos)
  with assms have "0 \<le> x / q"
    by simp
  then have "0 \<le> round_half_even (x / q)"
    by (rule round_half_even_nonneg)
  with \<open>0 < q\<close> have y: "0 \<le> of_int (round_half_even (x / q)) * q"
    by simp
  from assms False have "sgn x = 1"
    by simp
  with y huge_pos show ?thesis
    using False by (simp add: fl_def Let_def q_def [symmetric])
qed

lemma inf_nonneg: "0 \<le> x \<Longrightarrow> 0 \<le> y \<Longrightarrow> 0 \<le> sgn x * sgn y * huge"
  using huge_pos by (simp add: sgn_if)

lemma fadd_nonneg: "0 \<le> x \<Longrightarrow> 0 \<le> y \<Longrightarrow> 0 \<le> fadd x y"
  by (simp add: fadd_def fl_nonneg)

lemma fmul_nonneg: "0 \<le> x \<Longrightarrow> 0 \<le> y \<Longrightarrow> 0 \<le> fmul x y"
  by (simp add: fmul_def fl_nonneg inf_nonneg)

lemma fdiv_nonneg: "0 \<le> x \<Longrightarrow> 0 \<le> y \<Longrightarrow> 0 \<le> fdiv x y"
  by (simp add: fdiv_def fl_nonneg inf_nonneg)

lemma round2_nonneg:
  assumes "0 \<le> x"
  shows "0 \<le> round2 x"
proof -
  from assms have "0 \<le> round_half_even (x * 100)"
    by (intro round_half_even_nonneg) simp
  then have "(0::rat) \<le> of_int (round_half_even (x * 100)) / 100"
    by simp
  then have "0 \<le> fl (of_int (round_half_even (x * 100)) / 100)"
    by (rule fl_nonneg)
  with assms show ?thesis
    by (simp add: round2_def)
qed

lemma weight_nonneg: "\<forall>t w. tw t = Some w \<longrightarrow> 0 \<le> w \<Longrightarrow> 0 \<le> weight tw t"
  by (simp add: weight_def fl_nonneg split: option.splits)

lemma total_nonneg:
  assumes "\<forall>t w. tw t = Some w \<longrightarrow> 0 \<le> w" and "0 \<le> acc"
  shows "0 \<le> fold (\<lambda>topic acc. fadd acc (weight tw topic)) order acc"
  using assms(2)
proof (induction order arbitrary: acc)
  case Nil
  then show ?case by simp
next
  case (Cons t order)
  from Cons.prems have "0 \<le> fadd acc (weight tw t)"
    by (intro fadd_nonneg weight_nonneg assms(1))
  then show ?case
    using Cons.IH by simp
qed

lemma topic_score_nonneg:
  assumes "\<forall>t w. tw t = Some w \<longrightarrow> 0 \<le> w"
  shows "0 \<le> topic_score tw order cl"
proof -
  have "0 \<le> fold (\<lambda>topic acc. fadd acc (weight tw topic)) order 0"
    by (rule total_nonneg [OF assms]) simp
  moreover have "0 \<le> fl (of_nat (card (c_topics cl)))"
    by (rule fl_nonneg) simp
  ultimately show ?thesis
    by (simp add: topic_score_def Let_def fdiv_nonneg fl_nonneg)
qed

lemma multiplier_below_one:
  "0 \<le> fadd 1 (fmul (fl (- 1)) (fl (3 / 10)))" "0 \<le> fadd 1 (fmul (fl (- 1)) (fl (1 / 10)))"
  by code_simp+

lemma multiplier_nonneg:
  assumes "0 \<le> c" and "0 \<le> fadd 1 (fmul (fl (- 1)) (fl c))"
  shows "0 \<le> fadd 1 (fmul (fl (of_int (int n - 1))) (fl c))"
proof (cases "n = 0")
  case True
  with assms(2) show ?thesis by simp
next
  case False
  then have "(0::rat) \<le> of_int (int n - 1)"
    by simp
  then have "0 \<le> fl (of_int (int n - 1))"
    by (rule fl_nonneg)
  moreover from assms(1) have "0 \<le> fl c"
    by (rule fl_nonneg)
  ultimately show ?thesis
    by (intro fadd_nonneg fmul_nonneg) simp_all
qed

lemma source_multiplier_nonneg: "0 \<le> source_multiplier cl"
  unfolding source_multiplier_def
  by (rule multiplier_nonneg [OF _ multiplier_below_one(1)]) simp

lemma entry_multiplier_nonneg: "0 \<le> entry_multiplier cl"
  unfolding entry_multiplier_def
  by (rule multiplier_nonneg [OF _ multiplier_below_one(2)]) simp

lemma lone_score:
  "round2 (fmul (fmul (fdiv (fadd 0 (fl (3 / 10))) (fl 1)) (fadd 1 (fmul (fl 0) (fl (3 / 10)))))
             (fadd 1 (fmul (fl 0) (fl (1 / 10)))))
   = fl (3 / 10)"
  by code_simp

text \<open>
  Rounding follows the floats: for six entries from four sources without topics the
  exact product of 0.3, 1.9 and 1.5 is 0.855, halfway between 0.85 and 0.86; the product
  of the floats lies below it, and the score is 0.85.
\<close>

lemma score_near_tie: "score_cluster Map.empty [] busy_cluster = fl (85 / 100)"
  by code_simp

lemma singleton_order:
  assumes "distinct order" and "set order = {t}"
  shows "order = [t]"
proof -
  from assms have "length order = 1"
    using distinct_card [of order] by simp
  then obtain x where "order = [x]"
    by (cases order) simp_all
  with assms(2) show ?thesis
    by simp
qed

text \<open>
  Claim C3. With non-negative topic weights, and the topics of the cluster iterated in
  any order, the score of a cluster is \<open>round(..., 2)\<close> of topic score times source
  multiplier times entry multiplier, each operation a float operation, where the topic
  score is the sum of the weights of the cluster's topics (0.3 for a topic without a
  weight) divided by their number, or 0.3 for a cluster without topics. The score is
  never negative; it is the float of a whole number of hundredths, or the infinity of an
  overflow; and a cluster of one entry, one source and one topic without a weight scores
  exactly the float 0.3.
\<close>

theorem score_cluster_formula:
  assumes "\<forall>t w. tw t = Some w \<longrightarrow> 0 \<le> w"
    and "distinct order \<and> set order = c_topics cl"
  shows "score_cluster tw order cl =
           round2
             (fmul
               (fmul
                 (if c_topics cl = {} then fl (3 / 10)
                  else fdiv (fold (\<lambda>t acc. fadd acc (case tw t of None \<Rightarrow> fl (3 / 10) | Some w \<Rightarrow> fl w))
                               order 0)
                         (fl (of_nat (card (c_topics cl)))))
                 (fadd 1 (fmul (fl (of_int (int (card (c_sources cl)) - 1))) (fl (3 / 10)))))
               (fadd 1 (fmul (fl (of_int (int (length (c_entries cl)) - 1))) (fl (1 / 10)))))
         \<and> 0 \<le> score_cluster tw order cl
         \<and> (is_inf (score_cluster tw order cl)
              \<or> (\<exists>k::int. score_cluster tw order cl = fl (of_int k / 100)))
         \<and> (length (c_entries cl) = 1 \<and> card (c_sources cl) = 1 \<and> c_topics cl = {t} \<and> tw t = None
              \<longrightarrow> score_cluster tw order cl = fl (3 / 10))"
proof (intro conjI impI)
  show "score_cluster tw order cl =
           round2
             (fmul
               (fmul
                 (if c_topics cl = {} then fl (3 / 10)
                  else fdiv (fold (\<lambda>t acc. fadd acc (case tw t of None \<Rightarrow> fl (3 / 10) | Some w \<Rightarrow> fl w))
                               order 0)
                         (fl (of_nat (card (c_topics cl)))))
                 (fadd 1 (fmul (fl (of_int (int (card (c_sources cl)) - 1))) (fl (3 / 10)))))
               (fadd 1 (fmul (fl (of_int (int (length (c_entries cl)) - 1))) (fl (1 / 10)))))"
    by (simp add: score_cluster_def topic_score_def source_multiplier_def entry_multiplier_def
        weight_def Let_def)
  show "0 \<le> score_cluster tw order cl"
    unfolding score_cluster_def
    by (intro round2_nonneg fmul_nonneg topic_score_nonneg assms(1)
        source_multiplier_nonneg entry_multiplier_nonneg)
  show "is_inf (score_cluster tw order cl)
        \<or> (\<exists>k::int. score_cluster tw order cl = fl (of_int k / 100))"
    unfolding score_cluster_def round2_def by auto
  show "score_cluster tw order cl = fl (3 / 10)"
    if h: "length (c_entries cl) = 1 \<and> card (c_sources cl) = 1 \<and> c_topics cl = {t} \<and> tw t = None"
  proof -
    from assms(2) h have o: "order = [t]"
      by (intro singleton_order) simp_all
    have ts: "topic_score tw order cl = fdiv (fadd 0 (fl (3 / 10))) (fl 1)"
      using h by (simp add: topic_score_def weight_def o)
    have sm: "source_multiplier cl = fadd 1 (fmul (fl 0) (fl (3 / 10)))"
      using h by (simp add: source_multiplier_def)
    have em: "entry_multiplier cl = fadd 1 (fmul (fl 0) (fl (1 / 10)))"
      using h by (simp add: entry_multiplier_def)
    show ?thesis
      unfolding score_cluster_def ts sm em by (rule lone_score)
  qed
qed

theorem score_cluster_formula_witness:
  "0 \<le> score_cluster Map.empty [''misc''] lone_cluster
   \<and> score_cluster Map.empty [''misc''] lone_cluster = fl (3 / 10)
   \<and> 0 \<le> score_cluster [''misc'' \<mapsto> 3 / 2] [''misc''] lone_cluster"
proof -
  have w: "\<forall>t w. (Map.empty :: topic_weights) t = Some w \<longrightarrow> 0 \<le> w"
    by simp
  have w': "\<forall>t w. ([''misc'' \<mapsto> 3 / 2] :: topic_weights) t = Some w \<longrightarrow> 0 \<le> w"
    by simp
  have o: "distinct [''misc''] \<and> set [''misc''] = c_topics lone_cluster"
    by (simp add: lone_cluster_def)
  have h: "length (c_entries lone_cluster) = 1 \<and> card (c_sources lone_cluster) = 1
           \<and> c_topics lone_cluster = {''misc''} \<and> (Map.empty :: topic_weights) ''misc'' = None"
    by (simp add: lone_cluster_def)
  from score_cluster_formula [OF w o, of "''misc''"] score_cluster_formula [OF w' o, of "''misc''"] h
  show ?thesis
    by blast
qed

section \<open>Suggestions: properties\<close>

text \<open>
  Claim C8. For every list of clusters there are at most 5 suggestions, in descending
  order of score, and suggestions of one score stand in the order of their clusters:
  they are an initial part of the suggestions of that score in cluster order.
\<close>

theorem generate_suggestions_top5:
  "length (generate_suggestions tw topic_order clusters) \<le> 5
   \<and> sorted_wrt (\<lambda>a b. s_score b \<le> s_score a) (generate_suggestions tw topic_order clusters)
   \<and> (\<forall>k. prefix (filter (\<lambda>s. s_score s = k) (generate_suggestions tw topic_order clusters))
              (filter (\<lambda>s. s_score s = k) (map (make_suggestion tw topic_order) clusters)))"
proof (intro conjI allI)
  let ?xs = "map (make_suggestion tw topic_order) clusters"
  let ?f = "\<lambda>x. - s_score x"
  show "length (generate_suggestions tw topic_order clusters) \<le> 5"
    by (simp add: generate_suggestions_def)
  have "sorted (map ?f (sort_key ?f ?xs))"
    by (rule sorted_sort_key)
  then have "sorted_wrt (\<lambda>a b. s_score b \<le> s_score a) (sort_key ?f ?xs)"
    by (simp add: sorted_map)
  then show "sorted_wrt (\<lambda>a b. s_score b \<le> s_score a) (generate_suggestions tw topic_order clusters)"
    unfolding generate_suggestions_def Let_def by (rule sorted_wrt_take)
  fix k
  have "filter (\<lambda>s. ?f s = - k) (sort_key ?f ?xs) = filter (\<lambda>s. ?f s = - k) ?xs"
    by (rule sort_key_stable)
  then have eq: "filter (\<lambda>s. s_score s = k) (sort_key ?f ?xs) = filter (\<lambda>s. s_score s = k) ?xs"
    by simp
  have "prefix (take 5 (sort_key ?f ?xs)) (sort_key ?f ?xs)"
    by (rule take_is_prefix)
  then have "prefix (filter (\<lambda>s. s_score s = k) (take 5 (sort_key ?f ?xs)))
               (filter (\<lambda>s. s_score s = k) (sort_key ?f ?xs))"
    by (rule filter_mono_prefix)
  then show "prefix (filter (\<lambda>s. s_score s = k) (generate_suggestions tw topic_order clusters))
               (filter (\<lambda>s. s_score s = k) ?xs)"
    by (simp add: generate_suggestions_def eq)
qed

section \<open>The scenario: properties\<close>

lemma scenario_cluster:
  "map (\<lambda>cl. (map e_title (c_entries cl), c_sources cl, card (c_sources cl), c_topics cl,
              length (c_entries cl)))
     (cluster_topics scenario)
   = [([''AI voice agents rise'', ''New AI agent tools''], {''A'', ''B''}, 2,
       {''ai'', ''telecom'', ''dev-tools''}, 2)]"
  by code_simp

lemma scenario_multipliers:
  "fadd 1 (fmul (fl 1) (fl (3 / 10))) = fl (13 / 10)"
  "fadd 1 (fmul (fl 1) (fl (1 / 10))) = fl (11 / 10)"
  by code_simp+

lemma scenario_rounding:
  "round2 (fmul (fmul (fdiv (fadd (fadd (fadd 0 (fl (3 / 10))) (fl (3 / 10))) (fl (3 / 10))) (fl 3))
                        (fl (13 / 10)))
             (fl (11 / 10)))
   = fl (43 / 100)"
  by code_simp

lemma three_topics:
  assumes "distinct order" and "set order = {a, b, c}" and "a \<noteq> b" and "a \<noteq> c" and "b \<noteq> c"
  shows "\<exists>x y z. order = [x, y, z]"
proof -
  from assms have "length order = 3"
    using distinct_card [of order] by simp
  then show ?thesis
    by (auto simp: length_Suc_conv numeral_3_eq_3)
qed

text \<open>
  Claim C4. With no topic weights the two entries of the scenario form one cluster with
  the two sources A and B; its source multiplier is the float 1.3, its entry multiplier
  the float 1.1, and its score the float 0.43, in whichever order its three topics are
  iterated.
\<close>

theorem scenario_score:
  "map (\<lambda>cl. (map e_title (c_entries cl), c_sources cl, card (c_sources cl),
              source_multiplier cl, entry_multiplier cl))
     (cluster_topics scenario)
   = [([''AI voice agents rise'', ''New AI agent tools''], {''A'', ''B''}, 2,
       fl (13 / 10), fl (11 / 10))]
   \<and> (\<forall>order. distinct order \<and> set order = {''ai'', ''telecom'', ''dev-tools''}
        \<longrightarrow> map (score_cluster Map.empty order) (cluster_topics scenario) = [fl (43 / 100)])"
proof (intro conjI allI impI)
  from scenario_cluster obtain cl where cl: "cluster_topics scenario = [cl]"
    and e: "map e_title (c_entries cl) = [''AI voice agents rise'', ''New AI agent tools'']"
    and s: "c_sources cl = {''A'', ''B''}" and n: "card (c_sources cl) = 2"
    and t: "c_topics cl = {''ai'', ''telecom'', ''dev-tools''}" and m: "length (c_entries cl) = 2"
    by (auto simp: map_eq_Cons_conv)
  have sm: "source_multiplier cl = fl (13 / 10)"
    using n by (simp add: source_multiplier_def scenario_multipliers)
  have em: "entry_multiplier cl = fl (11 / 10)"
    using m by (simp add: entry_multiplier_def scenario_multipliers)
  show "map (\<lambda>cl. (map e_title (c_entries cl), c_sources cl, card (c_sources cl),
              source_multiplier cl, entry_multiplier cl))
     (cluster_topics scenario)
   = [([''AI voice agents rise'', ''New AI agent tools''], {''A'', ''B''}, 2,
       fl (13 / 10), fl (11 / 10))]"
    unfolding cl by (simp add: e s sm em)
  fix order :: "string list"
  assume o: "distinct order \<and> set order = {''ai'', ''telecom'', ''dev-tools''}"
  then obtain x y z where xyz: "order = [x, y, z]"
    using three_topics [of order "''ai''" "''telecom''" "''dev-tools''"] by auto
  have "card (c_topics cl) = 3"
    unfolding t by simp
  then have ts: "topic_score Map.empty order cl
      = fdiv (fadd (fadd (fadd 0 (fl (3 / 10))) (fl (3 / 10))) (fl (3 / 10))) (fl 3)"
    using t by (simp add: topic_score_def weight_def xyz)
  show "map (score_cluster Map.empty order) (cluster_topics scenario) = [fl (43 / 100)]"
    unfolding cl by (simp only: list.map score_cluster_def ts sm em scenario_rounding)
qed

theorem scenario_score_witness:
  "map (score_cluster Map.empty [''ai'', ''telecom'', ''dev-tools'']) (cluster_topics scenario)
   = [fl (43 / 100)]"
proof -
  have "distinct [''ai'', ''telecom'', ''dev-tools'']
        \<and> set [''ai'', ''telecom'', ''dev-tools''] = {''ai'', ''telecom'', ''dev-tools''}"
    by simp
  with scenario_score show ?thesis
    by blast
qed

text \<open>
  Claim C5, as the program behaves. The cluster of the scenario has the topics ai,
  telecom and dev-tools, and its angle is the one of the telecom and voice topics
  together with ai: "Connect this to vCon and AI-powered voice intelligence in telecom".
\<close>

theorem scenario_angle:
  "map (\<lambda>cl. (c_topics cl, generate_angle cl)) (cluster_topics scenario)
   = [({''ai'', ''telecom'', ''dev-tools''},
       ''Connect this to vCon and AI-powered voice intelligence in telecom'')]"
  by code_simp

text \<open>
  Claim C5, as stated, fails: the angle of the scenario's cluster is not "Bridge this AI
  development with telecom/voice applications".
\<close>

theorem scenario_angle_not_bridge:
  "map generate_angle (cluster_topics scenario)
   \<noteq> [''Bridge this AI development with telecom/voice applications'']"
  by code_simp

end
